theory Spec2Isabelle
  imports Main "HOL-Library.Multiset"
begin

section \<open>The LRU frame simulation of \<^verbatim>\<open>main_logic.cpp\<close>\<close>

text \<open>
  The program reads a reference string of \<^verbatim>\<open>int\<close> identifiers and, for each of them,
  prints HIT or MISS and the three frame slots. Identifiers are only stored and compared
  for equality, never computed with, so they are modelled as \<^typ>\<open>int\<close>.

  The three mutable variables of \<^verbatim>\<open>main\<close> are the state:
  \<^item> \<^verbatim>\<open>vector<int> ram(3,-1)\<close>: the frame table, \<open>-1\<close> being the empty slot;
  \<^item> \<^verbatim>\<open>list<int> check_usage\<close>: the recency list, front = most recently used. A
    \<^verbatim>\<open>std::list\<close> node keeps its identity while it is moved, so a node is a pair of
    a handle (its address) and the value it stores;
  \<^item> \<^verbatim>\<open>unordered_map<int, list<int>::iterator> map\<close>: from identifier to the handle of
    a node.
  The variable \<^verbatim>\<open>ram_size\<close> is initialised to 0 and never used again; it is left out.
  Reading the inputs (\<^verbatim>\<open>take_input\<close>) is not modelled: the loop of \<^verbatim>\<open>main\<close> is run
  on the vector \<^verbatim>\<open>inputs\<close> as \<^verbatim>\<open>take_input\<close> left it, which can hold any \<^verbatim>\<open>int\<close>.
\<close>

type_synonym handle = nat
type_synonym node = "handle \<times> int"

record state =
  ram :: "int list"
  check_usage :: "node list"
  map_it :: "int \<rightharpoonup> handle"

text \<open>Lines 23 to 25: three slots holding \<open>-1\<close>, an empty list, an empty map.\<close>

definition init :: state where
  "init = \<lparr>ram = replicate 3 (- 1), check_usage = [], map_it = Map.empty\<rparr>"

text \<open>
  \<^verbatim>\<open>push_front\<close> allocates a node. The allocator returns an address that no live node
  of the list has; the model takes one above all of them.
\<close>

fun fresh_handle :: "node list \<Rightarrow> handle" where
  "fresh_handle [] = 0"
| "fresh_handle (n # ns) = max (Suc (fst n)) (fresh_handle ns)"

definition push_front :: "int \<Rightarrow> node list \<Rightarrow> node list" where
  "push_front v ns = (fresh_handle ns, v) # ns"

text \<open>
  Line 32, \<^verbatim>\<open>check_usage.splice(check_usage.begin(), check_usage, it)\<close>: the node that
  the iterator \<open>it\<close> designates is unlinked and relinked at the front; every other node
  keeps its place. The source is only defined when \<open>it\<close> designates a node of the list;
  \<open>iterator_valid\<close> below shows that the iterator found in the map always does.
\<close>

definition splice_front :: "handle \<Rightarrow> node list \<Rightarrow> node list" where
  "splice_front h ns = filter (\<lambda>n. fst n = h) ns @ filter (\<lambda>n. fst n \<noteq> h) ns"

text \<open>
  Lines 37 to 39, the eviction: \<^verbatim>\<open>victim = check_usage.back(); check_usage.pop_back();
  map.erase(victim)\<close>. The result is the victim, the list and the map. The source runs it
  only under the guard \<^verbatim>\<open>check_usage.size()==3\<close> of line 36, so \<^verbatim>\<open>back()\<close> is never
  called on an empty list.
\<close>

definition evict :: "node list \<Rightarrow> (int \<rightharpoonup> handle) \<Rightarrow> int \<times> node list \<times> (int \<rightharpoonup> handle)" where
  "evict ns m = (let victim = snd (last ns) in (victim, butlast ns, m(victim := None)))"

text \<open>
  Lines 44 to 55, the placement scan \<^verbatim>\<open>for(int j=0;j<3;j++)\<close>: the first slot that
  holds \<open>-1\<close>, or else holds the victim, is overwritten and the loop is left. The second
  component is the index at which the loop was left by \<^verbatim>\<open>break\<close> (what the
  commented-out flag \<^verbatim>\<open>placed\<close> recorded), \<open>None\<close> when the loop ran to \<open>j = 3\<close>.
\<close>

function place :: "nat \<Rightarrow> int \<Rightarrow> int \<Rightarrow> int list \<Rightarrow> int list \<times> nat option" where
  "place j x victim r =
     (if j < 3 then
        (if r ! j = - 1 then (r[j := x], Some j)
         else if r ! j = victim then (r[j := x], Some j)
         else place (Suc j) x victim r)
      else (r, None))"
  by pat_completeness auto
termination
  by (relation "measure (\<lambda>(j, x, victim, r). 3 - j)") auto

declare place.simps [simp del]

datatype outcome = HIT | MISS int

text \<open>
  One iteration of the loop of line 28, for the identifier \<open>x = inputs[i]\<close>. The outcome
  \<open>MISS v\<close> carries the final value of the local variable \<^verbatim>\<open>victim\<close>, which is \<open>-1\<close>
  when nothing was evicted.
\<close>

definition access :: "state \<Rightarrow> int \<Rightarrow> outcome \<times> state" where
  "access s x =
     (case map_it s x of
        Some h \<Rightarrow> (HIT, s\<lparr>check_usage := splice_front h (check_usage s)\<rparr>)
      | None \<Rightarrow>
          (let (victim, ns, m) =
                 (if length (check_usage s) = 3 then evict (check_usage s) (map_it s)
                  else (- 1, check_usage s, map_it s));
               ns' = push_front x ns;
               m' = m(x \<mapsto> fst (hd ns'));
               r' = fst (place 0 x victim (ram s))
           in (MISS victim, \<lparr>ram = r', check_usage = ns', map_it = m'\<rparr>)))"

text \<open>
  The loop of lines 28 to 61 over the inputs. Each iteration prints one line: the
  identifier, HIT or MISS, and the three slots after the access. The victim is not
  printed by the source; the trace keeps it inside the outcome.
\<close>

type_synonym trace_line = "int \<times> outcome \<times> int list"

fun main_loop :: "state \<Rightarrow> int list \<Rightarrow> trace_line list \<times> state" where
  "main_loop s [] = ([], s)"
| "main_loop s (x # xs) =
     (let (oc, s') = access s x;
          (tr, s'') = main_loop s' xs
      in ((x, oc, ram s') # tr, s''))"

definition main :: "int list \<Rightarrow> trace_line list \<times> state" where
  "main inputs = main_loop init inputs"

definition state_after :: "int list \<Rightarrow> state" where
  "state_after inputs = snd (main inputs)"

text \<open>The identifiers in recency order, most recently used first.\<close>

definition recency :: "state \<Rightarrow> int list" where
  "recency s = map snd (check_usage s)"

text \<open>The contents of the slots that are not empty, in slot order.\<close>

definition occupied :: "state \<Rightarrow> int list" where
  "occupied s = filter (\<lambda>v. v \<noteq> - 1) (ram s)"

text \<open>Line 30, the residency test \<^verbatim>\<open>map.find(inputs[i]) != map.end()\<close>.\<close>

definition resident :: "state \<Rightarrow> int \<Rightarrow> bool" where
  "resident s x \<longleftrightarrow> map_it s x \<noteq> None"

text \<open>
  The invariant of the recency list and the map, for every input: three slots, at most
  three nodes, no address and no identifier twice in the list, the map holding exactly
  the pairs of the list (so every iterator stored in the map designates a live node, which
  stores the key), and the slots beyond the resident count still empty.
\<close>

definition tracker_inv :: "state \<Rightarrow> bool" where
  "tracker_inv s \<longleftrightarrow>
     length (ram s) = 3 \<and>
     length (check_usage s) \<le> 3 \<and>
     distinct (map fst (check_usage s)) \<and>
     distinct (map snd (check_usage s)) \<and>
     (\<forall>k h. map_it s k = Some h \<longleftrightarrow> (h, k) \<in> set (check_usage s)) \<and>
     (\<forall>j. length (check_usage s) \<le> j \<and> j < 3 \<longrightarrow> ram s ! j = - 1)"

text \<open>
  The invariant that ties the frame table to the recency list when \<open>-1\<close> is never
  requested: the first slots, as many as there are residents, hold exactly the resident
  identifiers, and \<open>-1\<close> is not resident.
\<close>

definition frame_inv :: "state \<Rightarrow> bool" where
  "frame_inv s \<longleftrightarrow>
     - 1 \<notin> set (recency s) \<and>
     mset (take (length (check_usage s)) (ram s)) = mset (recency s)"

section \<open>Basic facts about the operations\<close>

lemma fresh_handle_gt: "n \<in> set ns \<Longrightarrow> fst n < fresh_handle ns"
  by (induction ns) auto

lemma fresh_handle_notin: "fresh_handle ns \<notin> fst ` set ns"
  using fresh_handle_gt by fastforce

lemma place_length: "length (fst (place j x v r)) = length r"
  by (induction j x v r rule: place.induct) (subst place.simps, simp)

lemma place_SomeD:
  "place j x v r = (r', Some k) \<Longrightarrow>
   j \<le> k \<and> k < 3 \<and> (r ! k = - 1 \<or> r ! k = v) \<and>
   (\<forall>i. j \<le> i \<and> i < k \<longrightarrow> r ! i \<noteq> - 1 \<and> r ! i \<noteq> v) \<and> r' = r[k := x]"
proof (induction j x v r rule: place.induct)
  case (1 j x victim r)
  show ?case
  proof (cases "j < 3 \<and> r ! j \<noteq> - 1 \<and> r ! j \<noteq> victim")
    case True
    then have "place (Suc j) x victim r = (r', Some k)"
      using "1.prems" by (subst (asm) place.simps) simp
    with True "1.IH" have IH: "Suc j \<le> k \<and> k < 3 \<and> (r ! k = - 1 \<or> r ! k = victim) \<and>
       (\<forall>i. Suc j \<le> i \<and> i < k \<longrightarrow> r ! i \<noteq> - 1 \<and> r ! i \<noteq> victim) \<and> r' = r[k := x]"
      by simp
    have "\<forall>i. j \<le> i \<and> i < k \<longrightarrow> r ! i \<noteq> - 1 \<and> r ! i \<noteq> victim"
    proof (intro allI impI)
      fix i assume "j \<le> i \<and> i < k"
      then have "i = j \<or> (Suc j \<le> i \<and> i < k)" by arith
      then show "r ! i \<noteq> - 1 \<and> r ! i \<noteq> victim" using True IH by blast
    qed
    with IH show ?thesis by simp
  next
    case False
    then show ?thesis using "1.prems"
      by (subst (asm) place.simps) (auto split: if_splits)
  qed
qed

lemma place_NoneD:
  "place j x v r = (r', None) \<Longrightarrow>
   r' = r \<and> (\<forall>i. j \<le> i \<and> i < 3 \<longrightarrow> r ! i \<noteq> - 1 \<and> r ! i \<noteq> v)"
proof (induction j x v r rule: place.induct)
  case (1 j x victim r)
  show ?case
  proof (cases "j < 3")
    case True
    then have ne: "r ! j \<noteq> - 1 \<and> r ! j \<noteq> victim" and rec: "place (Suc j) x victim r = (r', None)"
      using "1.prems" by (subst (asm) place.simps, auto split: if_splits)+
    with True "1.IH" have IH: "r' = r \<and> (\<forall>i. Suc j \<le> i \<and> i < 3 \<longrightarrow> r ! i \<noteq> - 1 \<and> r ! i \<noteq> victim)"
      by simp
    have "\<forall>i. j \<le> i \<and> i < 3 \<longrightarrow> r ! i \<noteq> - 1 \<and> r ! i \<noteq> victim"
    proof (intro allI impI)
      fix i assume "j \<le> i \<and> i < 3"
      then have "i = j \<or> (Suc j \<le> i \<and> i < 3)" by arith
      then show "r ! i \<noteq> - 1 \<and> r ! i \<noteq> victim" using ne IH by blast
    qed
    with IH show ?thesis by simp
  next
    case False
    then show ?thesis using "1.prems"
      by (subst (asm) place.simps) auto
  qed
qed

lemma place_first:
  assumes "j \<le> k" "k < 3" "r ! k = - 1 \<or> r ! k = v"
    and "\<forall>i. j \<le> i \<and> i < k \<longrightarrow> r ! i \<noteq> - 1 \<and> r ! i \<noteq> v"
  shows "place j x v r = (r[k := x], Some k)"
proof (cases "place j x v r")
  case (Pair r' res)
  show ?thesis
  proof (cases res)
    case None
    with Pair place_NoneD[of j x v r r'] assms show ?thesis by blast
  next
    case (Some k')
    with Pair place_SomeD[of j x v r r' k'] have
      k': "j \<le> k'" "k' < 3" "r ! k' = - 1 \<or> r ! k' = v"
      "\<forall>i. j \<le> i \<and> i < k' \<longrightarrow> r ! i \<noteq> - 1 \<and> r ! i \<noteq> v" "r' = r[k' := x]"
      by blast+
    have "\<not> k' < k" using k' assms by blast
    moreover have "\<not> k < k'" using k' assms by blast
    ultimately have "k' = k" by arith
    with Pair Some k' show ?thesis by simp
  qed
qed

lemma main_loop_snoc:
  "snd (main_loop s (xs @ [x])) = snd (access (snd (main_loop s xs)) x)"
  by (induction xs arbitrary: s) (simp_all add: split_beta Let_def)

lemma state_after_Nil: "state_after [] = init"
  by (simp add: state_after_def main_def)

lemma state_after_snoc: "state_after (xs @ [x]) = snd (access (state_after xs) x)"
  by (simp add: state_after_def main_def main_loop_snoc)

section \<open>The invariants\<close>

lemma tracker_inv_init: "tracker_inv init"
  by (simp add: tracker_inv_def init_def)

lemma frame_inv_init: "frame_inv init"
  by (simp add: frame_inv_def init_def recency_def)

lemma mset_splice_front: "mset (splice_front h ns) = mset ns"
  by (simp add: splice_front_def)

lemma resident_iff:
  "tracker_inv s \<Longrightarrow> map_it s x \<noteq> None \<longleftrightarrow> x \<in> set (recency s)"
  by (force simp: tracker_inv_def recency_def)

lemma access_hit:
  "map_it s x = Some h \<Longrightarrow>
   access s x = (HIT, s\<lparr>check_usage := splice_front h (check_usage s)\<rparr>)"
  by (simp add: access_def)

lemma access_miss_low:
  "map_it s x = None \<Longrightarrow> length (check_usage s) \<noteq> 3 \<Longrightarrow>
   access s x = (MISS (- 1),
     \<lparr>ram = fst (place 0 x (- 1) (ram s)),
      check_usage = (fresh_handle (check_usage s), x) # check_usage s,
      map_it = (map_it s)(x \<mapsto> fresh_handle (check_usage s))\<rparr>)"
  by (simp add: access_def push_front_def)

lemma access_miss_full:
  "map_it s x = None \<Longrightarrow> length (check_usage s) = 3 \<Longrightarrow>
   access s x = (MISS (snd (last (check_usage s))),
     \<lparr>ram = fst (place 0 x (snd (last (check_usage s))) (ram s)),
      check_usage = (fresh_handle (butlast (check_usage s)), x) # butlast (check_usage s),
      map_it = ((map_it s)(snd (last (check_usage s)) := None))
                 (x \<mapsto> fresh_handle (butlast (check_usage s)))\<rparr>)"
  by (simp add: access_def push_front_def evict_def Let_def)

lemma place_low_any:
  assumes "tracker_inv s" "length (check_usage s) \<noteq> 3"
  shows "\<exists>k\<le>length (check_usage s). ram s ! k = - 1 \<and> (\<forall>i<k. ram s ! i \<noteq> - 1) \<and>
           place 0 x (- 1) (ram s) = ((ram s)[k := x], Some k)"
proof -
  let ?n = "length (check_usage s)"
  from assms have n: "?n < 3" and e: "ram s ! ?n = - 1"
    by (auto simp: tracker_inv_def)
  obtain r' res where p: "place 0 x (- 1) (ram s) = (r', res)" by (cases "place 0 x (- 1) (ram s)")
  show ?thesis
  proof (cases res)
    case None
    with p place_NoneD[of 0 x "- 1" "ram s" r'] n e show ?thesis by auto
  next
    case (Some k)
    with p place_SomeD[of 0 x "- 1" "ram s" r' k] have
      k: "k < 3" "ram s ! k = - 1" "\<forall>i<k. ram s ! i \<noteq> - 1" "r' = (ram s)[k := x]"
      by auto
    have "\<not> ?n < k" using k e by blast
    then have "k \<le> ?n" by arith
    with k p Some show ?thesis by auto
  qed
qed

lemma frame_inv_no_sentinel:
  assumes "frame_inv s" "i < length (check_usage s)" "length (check_usage s) \<le> length (ram s)"
  shows "ram s ! i \<noteq> - 1"
proof -
  from assms(1) have "set (take (length (check_usage s)) (ram s)) = set (recency s)"
    unfolding frame_inv_def by (metis mset_eq_setD)
  moreover have "ram s ! i \<in> set (take (length (check_usage s)) (ram s))"
    using assms(2,3) by (metis in_set_conv_nth length_take min.absorb2 nth_take)
  ultimately show ?thesis using assms(1) by (auto simp: frame_inv_def)
qed

lemma place_low:
  assumes "tracker_inv s" "frame_inv s" "length (check_usage s) \<noteq> 3"
  shows "place 0 x (- 1) (ram s) =
           ((ram s)[length (check_usage s) := x], Some (length (check_usage s)))"
proof -
  let ?n = "length (check_usage s)"
  from assms have n: "?n < 3" and e: "ram s ! ?n = - 1" and l: "length (ram s) = 3"
    by (auto simp: tracker_inv_def)
  have "\<forall>i. 0 \<le> i \<and> i < ?n \<longrightarrow> ram s ! i \<noteq> - 1 \<and> ram s ! i \<noteq> - 1"
    using frame_inv_no_sentinel[OF assms(2)] n l by simp
  then show ?thesis using n e by (intro place_first) auto
qed

lemma place_full:
  assumes "tracker_inv s" "frame_inv s" "length (check_usage s) = 3"
  shows "\<exists>k<3. ram s ! k = snd (last (check_usage s)) \<and>
           (\<forall>i<k. ram s ! i \<noteq> snd (last (check_usage s))) \<and>
           place 0 x (snd (last (check_usage s))) (ram s) = ((ram s)[k := x], Some k)"
proof -
  let ?v = "snd (last (check_usage s))"
  from assms have l: "length (ram s) = 3" and ne: "check_usage s \<noteq> []"
    by (auto simp: tracker_inv_def)
  from assms have "mset (ram s) = mset (recency s)"
    using l by (simp add: frame_inv_def)
  then have st: "set (ram s) = set (recency s)" by (metis mset_eq_setD)
  have "?v \<in> set (recency s)" using ne by (simp add: recency_def)
  with st obtain i where i: "i < 3" "ram s ! i = ?v"
    using l by (metis in_set_conv_nth)
  have nos: "\<forall>i<3. ram s ! i \<noteq> - 1"
    using frame_inv_no_sentinel[OF assms(2)] assms(3) l by simp
  obtain r' res where p: "place 0 x ?v (ram s) = (r', res)" by (cases "place 0 x ?v (ram s)")
  show ?thesis
  proof (cases res)
    case None
    with p place_NoneD[of 0 x ?v "ram s" r'] i show ?thesis by auto
  next
    case (Some k)
    with p place_SomeD[of 0 x ?v "ram s" r' k] have
      k: "k < 3" "ram s ! k = - 1 \<or> ram s ! k = ?v" "\<forall>i<k. ram s ! i \<noteq> ?v" "r' = (ram s)[k := x]"
      by auto
    with nos have "ram s ! k = ?v" by auto
    with k p Some show ?thesis by auto
  qed
qed

lemma tracker_inv_hit:
  assumes "tracker_inv s" "map_it s x = Some h"
  shows "tracker_inv (s\<lparr>check_usage := splice_front h (check_usage s)\<rparr>)"
proof -
  let ?ns = "splice_front h (check_usage s)"
  have m: "mset ?ns = mset (check_usage s)" by (rule mset_splice_front)
  then have len: "length ?ns = length (check_usage s)" by (metis size_mset)
  from m have st: "set ?ns = set (check_usage s)" by (metis mset_eq_setD)
  from m have "mset (map fst ?ns) = mset (map fst (check_usage s))"
    and "mset (map snd ?ns) = mset (map snd (check_usage s))"
    by (metis mset_map)+
  then have "distinct (map fst ?ns) = distinct (map fst (check_usage s))"
    and "distinct (map snd ?ns) = distinct (map snd (check_usage s))"
    by (metis mset_eq_imp_distinct_iff)+
  with assms(1) len st show ?thesis by (simp add: tracker_inv_def)
qed

lemma tracker_inv_miss_low:
  assumes "tracker_inv s" "map_it s x = None" "length (check_usage s) \<noteq> 3"
  shows "tracker_inv (snd (access s x))"
proof -
  let ?ns = "check_usage s" and ?h = "fresh_handle (check_usage s)"
  from place_low_any[OF assms(1,3), of x] obtain k where
    k: "k \<le> length ?ns" "place 0 x (- 1) (ram s) = ((ram s)[k := x], Some k)" by blast
  have acc: "snd (access s x) =
      \<lparr>ram = (ram s)[k := x], check_usage = (?h, x) # ?ns, map_it = (map_it s)(x \<mapsto> ?h)\<rparr>"
    using assms(2,3) k(2) by (simp add: access_miss_low)
  have fr: "?h \<notin> fst ` set ?ns" by (rule fresh_handle_notin)
  have nx: "x \<notin> snd ` set ?ns"
    using assms(1,2) by (force simp: tracker_inv_def)
  have mp: "\<forall>a b. ((map_it s)(x \<mapsto> ?h)) a = Some b \<longleftrightarrow> (b, a) \<in> set ((?h, x) # ?ns)"
    using assms(1) nx by (force simp: tracker_inv_def)
  have w: "\<forall>j. length ((?h, x) # ?ns) \<le> j \<and> j < 3 \<longrightarrow> (ram s)[k := x] ! j = - 1"
    using assms(1) k(1) by (simp add: tracker_inv_def)
  show ?thesis
    unfolding acc tracker_inv_def using assms(1,3) fr nx mp w
    by (simp add: tracker_inv_def)
qed

lemma tracker_inv_miss_full:
  assumes "tracker_inv s" "map_it s x = None" "length (check_usage s) = 3"
  shows "tracker_inv (snd (access s x))"
proof -
  let ?ns = "check_usage s"
  from assms(3) have ne: "?ns \<noteq> []" by auto
  obtain ys hl v where split: "?ns = ys @ [(hl, v)]"
    using ne by (metis rev_exhaust surj_pair)
  let ?h = "fresh_handle ys"
  have acc: "snd (access s x) =
      \<lparr>ram = fst (place 0 x v (ram s)), check_usage = (?h, x) # ys,
       map_it = ((map_it s)(v := None))(x \<mapsto> ?h)\<rparr>"
    using assms(2,3) split by (simp add: access_miss_full)
  have fr: "?h \<notin> fst ` set ys" by (rule fresh_handle_notin)
  have nx: "x \<notin> snd ` set ?ns"
    using assms(1,2) by (force simp: tracker_inv_def)
  then have nxy: "x \<notin> snd ` set ys" and xv: "x \<noteq> v" using split by auto
  from assms(1) split have d: "distinct (map fst ys)" "distinct (map snd ys)" "v \<notin> snd ` set ys"
    by (auto simp: tracker_inv_def)
  have mp: "\<forall>a b. (((map_it s)(v := None))(x \<mapsto> ?h)) a = Some b \<longleftrightarrow> (b, a) \<in> set ((?h, x) # ys)"
  proof (intro allI)
    fix a b
    from assms(1) have m: "map_it s a = Some b \<longleftrightarrow> (b, a) \<in> set ?ns"
      by (simp add: tracker_inv_def)
    show "(((map_it s)(v := None))(x \<mapsto> ?h)) a = Some b \<longleftrightarrow> (b, a) \<in> set ((?h, x) # ys)"
      using m nxy d(3) split xv by (cases "a = x"; cases "a = v") force+
  qed
  have len: "length ((?h, x) # ys) = 3" using assms(3) split by simp
  show ?thesis
    unfolding acc tracker_inv_def using assms(1) fr nxy d mp len
    by (simp add: tracker_inv_def place_length)
qed

lemma tracker_inv_access: "tracker_inv s \<Longrightarrow> tracker_inv (snd (access s x))"
  by (cases "map_it s x"; cases "length (check_usage s) = 3")
     (simp_all add: tracker_inv_miss_low tracker_inv_miss_full access_hit tracker_inv_hit)

lemma tracker_inv_state_after: "tracker_inv (state_after xs)"
  by (induction xs rule: rev_induct)
     (simp_all add: state_after_Nil state_after_snoc tracker_inv_init tracker_inv_access)

lemma frame_inv_hit:
  assumes "frame_inv s"
  shows "frame_inv (s\<lparr>check_usage := splice_front h (check_usage s)\<rparr>)"
proof -
  let ?ns = "splice_front h (check_usage s)"
  have m: "mset ?ns = mset (check_usage s)" by (rule mset_splice_front)
  then have len: "length ?ns = length (check_usage s)" by (metis size_mset)
  from m have ms: "mset (map snd ?ns) = mset (map snd (check_usage s))" by (metis mset_map)
  then have "set (map snd ?ns) = set (map snd (check_usage s))" by (metis mset_eq_setD)
  with assms len ms show ?thesis by (simp add: frame_inv_def recency_def)
qed

lemma access_miss_low_inv:
  assumes "tracker_inv s" "frame_inv s" "map_it s x = None" "length (check_usage s) \<noteq> 3"
  shows "access s x = (MISS (- 1),
     \<lparr>ram = (ram s)[length (check_usage s) := x],
      check_usage = (fresh_handle (check_usage s), x) # check_usage s,
      map_it = (map_it s)(x \<mapsto> fresh_handle (check_usage s))\<rparr>)"
  using assms by (simp add: access_miss_low place_low)

lemma frame_inv_miss_low:
  assumes "tracker_inv s" "frame_inv s" "map_it s x = None" "length (check_usage s) \<noteq> 3"
    "x \<noteq> - 1"
  shows "frame_inv (snd (access s x))"
proof -
  let ?n = "length (check_usage s)"
  from assms(1,4) have n: "?n < length (ram s)" by (simp add: tracker_inv_def)
  have "take (Suc ?n) ((ram s)[?n := x]) = take ?n (ram s) @ [x]"
    using n by (simp add: take_Suc_conv_app_nth)
  then show ?thesis
    using assms(2,5) by (simp add: access_miss_low_inv[OF assms(1-4)] frame_inv_def recency_def)
qed

lemma mset_butlast_snoc: "ns \<noteq> [] \<Longrightarrow> add_mset (last ns) (mset (butlast ns)) = mset ns"
  by (induction ns) auto

lemma frame_inv_miss_full:
  assumes "tracker_inv s" "frame_inv s" "map_it s x = None" "length (check_usage s) = 3"
    "x \<noteq> - 1"
  shows "frame_inv (snd (access s x))"
proof -
  let ?ns = "check_usage s" and ?v = "snd (last (check_usage s))"
  from assms(1,4) have l: "length (ram s) = 3" and ne: "?ns \<noteq> []"
    by (auto simp: tracker_inv_def)
  from place_full[OF assms(1,2,4), of x] obtain k where
    k: "k < 3" "ram s ! k = ?v" "place 0 x ?v (ram s) = ((ram s)[k := x], Some k)" by blast
  have acc: "snd (access s x) =
      \<lparr>ram = (ram s)[k := x], check_usage = (fresh_handle (butlast ?ns), x) # butlast ?ns,
       map_it = ((map_it s)(?v := None))(x \<mapsto> fresh_handle (butlast ?ns))\<rparr>"
    using assms(3,4) k(3) by (simp add: access_miss_full)
  from assms(2,4) l have eq: "mset (ram s) = mset (map snd ?ns)"
    by (simp add: frame_inv_def recency_def)
  have "add_mset ?v (mset (map snd (butlast ?ns))) = mset (map snd ?ns)"
    using ne mset_butlast_snoc[of "map snd ?ns"] by (simp add: map_butlast last_map)
  then have bl: "mset (map snd (butlast ?ns)) = mset (map snd ?ns) - {#?v#}"
    by (metis add_mset_remove_trivial)
  have "mset ((ram s)[k := x]) = add_mset x (mset (ram s) - {#?v#})"
    using k(1,2) l by (simp add: mset_update)
  with eq bl have ms: "mset ((ram s)[k := x]) = mset (x # map snd (butlast ?ns))" by simp
  have "- 1 \<notin> set (map snd (butlast ?ns))"
    using assms(2) by (auto simp: frame_inv_def recency_def map_butlast dest: in_set_butlastD)
  with ms assms(4,5) l show ?thesis
    unfolding acc by (simp add: frame_inv_def recency_def)
qed

lemma frame_inv_access:
  "tracker_inv s \<Longrightarrow> frame_inv s \<Longrightarrow> x \<noteq> - 1 \<Longrightarrow> frame_inv (snd (access s x))"
  by (cases "map_it s x"; cases "length (check_usage s) = 3")
     (simp_all add: frame_inv_miss_low frame_inv_miss_full access_hit frame_inv_hit)

lemma frame_inv_state_after: "- 1 \<notin> set xs \<Longrightarrow> frame_inv (state_after xs)"
  by (induction xs rule: rev_induct)
     (simp_all add: state_after_Nil state_after_snoc frame_inv_init frame_inv_access
        tracker_inv_state_after)

lemma filter_handle_single:
  "distinct (map fst ns) \<Longrightarrow> (h, x) \<in> set ns \<Longrightarrow> filter (\<lambda>n. fst n = h) ns = [(h, x)]"
proof (induction ns)
  case Nil
  then show ?case by simp
next
  case (Cons n ns)
  show ?case
  proof (cases "n = (h, x)")
    case True
    with Cons.prems have "\<forall>n'\<in>set ns. fst n' \<noteq> h" by force
    then have "filter (\<lambda>n. fst n = h) ns = []" by (simp add: filter_empty_conv)
    with True show ?thesis by simp
  next
    case False
    with Cons.prems have in_ns: "(h, x) \<in> set ns" by simp
    then have "h \<in> fst ` set ns" by force
    with Cons.prems(1) have "fst n \<noteq> h" by auto
    with Cons in_ns show ?thesis by simp
  qed
qed

section \<open>What the invariants give\<close>

text \<open>
  In every state the program reaches, the iterator stored for a key designates exactly one
  node of the list, and that node stores the key: the splice of line 32 is always defined.
\<close>

lemma iterator_valid:
  assumes "map_it (state_after xs) x = Some h"
  shows "filter (\<lambda>n. fst n = h) (check_usage (state_after xs)) = [(h, x)]"
proof -
  have "tracker_inv (state_after xs)" by (rule tracker_inv_state_after)
  with assms have "distinct (map fst (check_usage (state_after xs)))"
    and "(h, x) \<in> set (check_usage (state_after xs))"
    by (auto simp: tracker_inv_def)
  then show ?thesis by (rule filter_handle_single)
qed

lemma resident_recency:
  "tracker_inv s \<Longrightarrow> resident s x \<longleftrightarrow> x \<in> set (recency s)"
  unfolding resident_def by (rule resident_iff)

lemma recency_splice_front:
  assumes "tracker_inv s" "map_it s x = Some h"
  shows "map snd (splice_front h (check_usage s)) = x # filter (\<lambda>v. v \<noteq> x) (recency s)"
proof -
  let ?ns = "check_usage s"
  from assms have d: "distinct (map fst ?ns)" "distinct (map snd ?ns)" and mem: "(h, x) \<in> set ?ns"
    by (auto simp: tracker_inv_def)
  have one: "filter (\<lambda>n. fst n = h) ?ns = [(h, x)]"
    using d(1) mem by (rule filter_handle_single)
  have "\<forall>n\<in>set ?ns. (fst n \<noteq> h) = (snd n \<noteq> x)"
  proof
    fix n assume n: "n \<in> set ?ns"
    from d have i1: "inj_on fst (set ?ns)" and i2: "inj_on snd (set ?ns)"
      by (simp_all add: distinct_map)
    have "fst n = h \<longrightarrow> n = (h, x)"
      using inj_onD[OF i1, of n "(h, x)"] n mem by simp
    moreover have "snd n = x \<longrightarrow> n = (h, x)"
      using inj_onD[OF i2, of n "(h, x)"] n mem by simp
    ultimately have "fst n = h \<longrightarrow> n = (h, x)" "snd n = x \<longrightarrow> n = (h, x)" by blast+
    then show "(fst n \<noteq> h) = (snd n \<noteq> x)" by auto
  qed
  then have "filter (\<lambda>n. fst n \<noteq> h) ?ns = filter (\<lambda>n. snd n \<noteq> x) ?ns"
    by (intro filter_cong) auto
  then have "map snd (filter (\<lambda>n. fst n \<noteq> h) ?ns) = filter (\<lambda>v. v \<noteq> x) (map snd ?ns)"
    by (simp add: filter_map comp_def)
  with one show ?thesis by (simp add: splice_front_def recency_def)
qed

lemma occupied_take:
  assumes "tracker_inv s" "frame_inv s"
  shows "occupied s = take (length (check_usage s)) (ram s)"
proof -
  let ?n = "length (check_usage s)"
  from assms(1) have l: "length (ram s) = 3" and n: "?n \<le> 3" by (auto simp: tracker_inv_def)
  have a: "\<forall>v\<in>set (take ?n (ram s)). v \<noteq> - 1"
  proof
    fix v assume "v \<in> set (take ?n (ram s))"
    then obtain i where "i < ?n" "v = ram s ! i"
      using l n by (auto simp: in_set_conv_nth)
    then show "v \<noteq> - 1" using frame_inv_no_sentinel[OF assms(2)] l n by simp
  qed
  have b: "\<forall>v\<in>set (drop ?n (ram s)). v = - 1"
  proof
    fix v assume "v \<in> set (drop ?n (ram s))"
    then obtain i where "i < 3 - ?n" "v = ram s ! (?n + i)"
      using l by (auto simp: in_set_conv_nth)
    then show "v = - 1" using assms(1) by (simp add: tracker_inv_def)
  qed
  have "occupied s = filter (\<lambda>v. v \<noteq> - 1) (take ?n (ram s) @ drop ?n (ram s))"
    by (simp add: occupied_def)
  also have "\<dots> = take ?n (ram s)"
    using a b by (simp add: filter_id_conv filter_empty_conv del: append_take_drop_id)
  finally show ?thesis .
qed

lemma nonneg_no_sentinel: "\<forall>x\<in>set xs. (0::int) \<le> x \<Longrightarrow> - 1 \<notin> set xs"
  by auto

lemma access_resident_after: "resident (snd (access s x)) x"
  by (cases "map_it s x"; cases "length (check_usage s) = 3")
     (simp_all add: resident_def access_hit access_miss_low access_miss_full)

lemma recency_miss:
  assumes "\<not> resident s x"
  shows "recency (snd (access s x)) =
           x # (if length (check_usage s) = 3 then butlast (recency s) else recency s)"
    and "fst (access s x) =
           MISS (if length (check_usage s) = 3 then last (recency s) else - 1)"
proof -
  from assms have m: "map_it s x = None" by (simp add: resident_def)
  show "recency (snd (access s x)) =
           x # (if length (check_usage s) = 3 then butlast (recency s) else recency s)"
  proof (cases "length (check_usage s) = 3")
    case True
    then show ?thesis
      by (simp add: access_miss_full[OF m True] recency_def map_butlast)
  next
    case False
    then show ?thesis
      by (simp add: access_miss_low[OF m False] recency_def)
  qed
  show "fst (access s x) =
           MISS (if length (check_usage s) = 3 then last (recency s) else - 1)"
  proof (cases "length (check_usage s) = 3")
    case True
    then have "check_usage s \<noteq> []" by auto
    with True show ?thesis
      by (simp add: access_miss_full[OF m True] recency_def last_map)
  next
    case False
    then show ?thesis
      by (simp add: access_miss_low[OF m False])
  qed
qed

lemma size_le_capacity: "length (recency (state_after xs)) \<le> 3"
  using tracker_inv_state_after[of xs] by (simp add: tracker_inv_def recency_def)

lemma occupied_recency:
  assumes "- 1 \<notin> set xs"
  shows "mset (occupied (state_after xs)) = mset (recency (state_after xs))"
  using occupied_take[OF tracker_inv_state_after frame_inv_state_after[OF assms]]
    frame_inv_state_after[OF assms]
  by (simp add: frame_inv_def)

lemma miss_placement_low:
  assumes "- 1 \<notin> set xs" "\<not> resident (state_after xs) x"
    "length (check_usage (state_after xs)) \<noteq> 3"
  shows "fst (access (state_after xs) x) = MISS (- 1)"
    and "place 0 x (- 1) (ram (state_after xs)) =
           (ram (snd (access (state_after xs) x)), Some (length (check_usage (state_after xs))))"
    and "ram (snd (access (state_after xs) x)) =
           (ram (state_after xs))[length (check_usage (state_after xs)) := x]"
    and "ram (state_after xs) ! length (check_usage (state_after xs)) = - 1"
    and "\<forall>i<length (check_usage (state_after xs)). ram (state_after xs) ! i \<noteq> - 1"
    and "length (check_usage (state_after xs)) < 3"
proof -
  let ?s = "state_after xs"
  have ti: "tracker_inv ?s" by (rule tracker_inv_state_after)
  have fi: "frame_inv ?s" using assms(1) by (rule frame_inv_state_after)
  from assms(2) have m: "map_it ?s x = None" by (simp add: resident_def)
  note acc = access_miss_low_inv[OF ti fi m assms(3)]
  show "fst (access ?s x) = MISS (- 1)" by (simp add: acc)
  show "ram (snd (access ?s x)) = (ram ?s)[length (check_usage ?s) := x]" by (simp add: acc)
  then show "place 0 x (- 1) (ram ?s) =
           (ram (snd (access ?s x)), Some (length (check_usage ?s)))"
    by (simp add: place_low[OF ti fi assms(3)])
  show n: "length (check_usage ?s) < 3" using ti assms(3) by (simp add: tracker_inv_def)
  then show "ram ?s ! length (check_usage ?s) = - 1" using ti by (simp add: tracker_inv_def)
  show "\<forall>i<length (check_usage ?s). ram ?s ! i \<noteq> - 1"
    using frame_inv_no_sentinel[OF fi] ti by (simp add: tracker_inv_def)
qed

lemma miss_placement_full:
  assumes "- 1 \<notin> set xs" "\<not> resident (state_after xs) x"
    "length (check_usage (state_after xs)) = 3"
  shows "\<exists>k<3. fst (access (state_after xs) x) = MISS (snd (last (check_usage (state_after xs)))) \<and>
           place 0 x (snd (last (check_usage (state_after xs)))) (ram (state_after xs)) =
             (ram (snd (access (state_after xs) x)), Some k) \<and>
           ram (snd (access (state_after xs) x)) = (ram (state_after xs))[k := x] \<and>
           ram (state_after xs) ! k = snd (last (check_usage (state_after xs))) \<and>
           (\<forall>i<k. ram (state_after xs) ! i \<noteq> snd (last (check_usage (state_after xs))))"
proof -
  let ?s = "state_after xs"
  have ti: "tracker_inv ?s" by (rule tracker_inv_state_after)
  have fi: "frame_inv ?s" using assms(1) by (rule frame_inv_state_after)
  from assms(2) have m: "map_it ?s x = None" by (simp add: resident_def)
  from place_full[OF ti fi assms(3), of x] obtain k where
    k: "k < 3" "ram ?s ! k = snd (last (check_usage ?s))"
       "\<forall>i<k. ram ?s ! i \<noteq> snd (last (check_usage ?s))"
       "place 0 x (snd (last (check_usage ?s))) (ram ?s) = ((ram ?s)[k := x], Some k)"
    by blast
  have "fst (access ?s x) = MISS (snd (last (check_usage ?s)))"
    and "ram (snd (access ?s x)) = (ram ?s)[k := x]"
    using k(4) by (simp_all add: access_miss_full[OF m assms(3)])
  with k show ?thesis by auto
qed

lemma place_rule:
  "(\<exists>k<3. (r ! k = - 1 \<or> r ! k = v) \<and> (\<forall>i<k. r ! i \<noteq> - 1 \<and> r ! i \<noteq> v) \<and>
           place 0 x v r = (r[k := x], Some k)) \<or>
   ((\<forall>i<3. r ! i \<noteq> - 1 \<and> r ! i \<noteq> v) \<and> place 0 x v r = (r, None))"
proof (cases "place 0 x v r")
  case (Pair r' res)
  show ?thesis
  proof (cases res)
    case None
    with Pair place_NoneD[of 0 x v r r'] show ?thesis by auto
  next
    case (Some k)
    with Pair place_SomeD[of 0 x v r r' k] show ?thesis by auto
  qed
qed

lemma access_miss_ram:
  "fst (access s x) = MISS v \<Longrightarrow> ram (snd (access s x)) = fst (place 0 x v (ram s))"
  by (cases "map_it s x"; cases "length (check_usage s) = 3")
     (auto simp: access_hit access_miss_low access_miss_full)

section \<open>Running the program on concrete inputs\<close>

lemmas run_simps = main_def state_after_def init_def access_def evict_def push_front_def
  splice_front_def place.simps Let_def numeral_3_eq_3 resident_def recency_def occupied_def

section \<open>The claims of the specification\<close>

text \<open>
  Claim C1, amended. In every state the program reaches, an identifier is resident exactly
  when it is in the recency list. An access to a resident identifier is a HIT, moves it to
  the front of the recency order and produces no victim. An access to any other
  identifier is a MISS; the last identifier of the recency order is evicted exactly when
  three are resident (otherwise the victim variable stays \<open>-1\<close>), and the identifier
  is inserted at the front and becomes resident. If the accesses so far never requested
  \<open>-1\<close>, the identifier is also written into one slot of the frame table.
\<close>

theorem access_transition:
  "(resident (state_after xs) x \<longleftrightarrow> x \<in> set (recency (state_after xs))) \<and>
   (resident (state_after xs) x \<longrightarrow>
      fst (access (state_after xs) x) = HIT \<and>
      recency (snd (access (state_after xs) x)) =
        x # filter (\<lambda>v. v \<noteq> x) (recency (state_after xs)) \<and>
      ram (snd (access (state_after xs) x)) = ram (state_after xs)) \<and>
   (\<not> resident (state_after xs) x \<longrightarrow>
      fst (access (state_after xs) x) =
        MISS (if length (recency (state_after xs)) = 3 then last (recency (state_after xs))
              else - 1) \<and>
      recency (snd (access (state_after xs) x)) =
        x # (if length (recency (state_after xs)) = 3 then butlast (recency (state_after xs))
             else recency (state_after xs)) \<and>
      resident (snd (access (state_after xs) x)) x \<and>
      (- 1 \<notin> set xs \<longrightarrow>
         x \<in> set (ram (snd (access (state_after xs) x))) \<and>
         (\<exists>k<3. ram (snd (access (state_after xs) x)) = (ram (state_after xs))[k := x])))"
proof -
  let ?s = "state_after xs"
  have ti: "tracker_inv ?s" by (rule tracker_inv_state_after)
  have len: "length (recency ?s) = length (check_usage ?s)" by (simp add: recency_def)
  have l3: "length (ram ?s) = 3" using ti by (simp add: tracker_inv_def)
  have A: "resident ?s x \<longleftrightarrow> x \<in> set (recency ?s)" by (rule resident_recency[OF ti])
  have B: "resident ?s x \<longrightarrow>
      fst (access ?s x) = HIT \<and>
      recency (snd (access ?s x)) = x # filter (\<lambda>v. v \<noteq> x) (recency ?s) \<and>
      ram (snd (access ?s x)) = ram ?s"
  proof
    assume "resident ?s x"
    then obtain h where h: "map_it ?s x = Some h" by (auto simp: resident_def)
    show "fst (access ?s x) = HIT \<and>
      recency (snd (access ?s x)) = x # filter (\<lambda>v. v \<noteq> x) (recency ?s) \<and>
      ram (snd (access ?s x)) = ram ?s"
      using recency_splice_front[OF ti h] by (simp add: access_hit[OF h] recency_def)
  qed
  have C: "\<not> resident ?s x \<longrightarrow>
      fst (access ?s x) = MISS (if length (recency ?s) = 3 then last (recency ?s) else - 1) \<and>
      recency (snd (access ?s x)) =
        x # (if length (recency ?s) = 3 then butlast (recency ?s) else recency ?s) \<and>
      resident (snd (access ?s x)) x \<and>
      (- 1 \<notin> set xs \<longrightarrow>
         x \<in> set (ram (snd (access ?s x))) \<and>
         (\<exists>k<3. ram (snd (access ?s x)) = (ram ?s)[k := x]))"
  proof
    assume nr: "\<not> resident ?s x"
    have p: "- 1 \<notin> set xs \<longrightarrow>
         x \<in> set (ram (snd (access ?s x))) \<and>
         (\<exists>k<3. ram (snd (access ?s x)) = (ram ?s)[k := x])"
    proof
      assume ns: "- 1 \<notin> set xs"
      have ex: "\<exists>k<3. ram (snd (access ?s x)) = (ram ?s)[k := x]"
      proof (cases "length (check_usage ?s) = 3")
        case True
        from miss_placement_full[OF ns nr True] show ?thesis by blast
      next
        case False
        from miss_placement_low(3,6)[OF ns nr False] show ?thesis by blast
      qed
      then obtain k where k: "k < 3" "ram (snd (access ?s x)) = (ram ?s)[k := x]" by blast
      then have "x \<in> set (ram (snd (access ?s x)))"
        using l3 by (simp add: set_update_memI)
      with ex show "x \<in> set (ram (snd (access ?s x))) \<and>
         (\<exists>k<3. ram (snd (access ?s x)) = (ram ?s)[k := x])" by simp
    qed
    show "fst (access ?s x) = MISS (if length (recency ?s) = 3 then last (recency ?s) else - 1) \<and>
      recency (snd (access ?s x)) =
        x # (if length (recency ?s) = 3 then butlast (recency ?s) else recency ?s) \<and>
      resident (snd (access ?s x)) x \<and>
      (- 1 \<notin> set xs \<longrightarrow>
         x \<in> set (ram (snd (access ?s x))) \<and>
         (\<exists>k<3. ram (snd (access ?s x)) = (ram ?s)[k := x]))"
      using recency_miss[OF nr] access_resident_after[of ?s x] p unfolding len by simp
  qed
  from A B C show ?thesis by (intro conjI)
qed

theorem access_transition_witness:
  "resident (state_after [1, 2, 3]) 1 \<and>
   recency (snd (access (state_after [1, 2, 3]) 1)) = [1, 3, 2] \<and>
   \<not> resident (state_after [1, 2, 3, 1]) 4 \<and> - 1 \<notin> set [1, 2, 3, 1 :: int] \<and>
   fst (access (state_after [1, 2, 3, 1]) 4) = MISS 2 \<and>
   recency (snd (access (state_after [1, 2, 3, 1]) 4)) = [4, 1, 3] \<and>
   4 \<in> set (ram (snd (access (state_after [1, 2, 3, 1]) 4)))"
  using access_transition [of "[1, 2, 3]" 1] access_transition [of "[1, 2, 3, 1]" 4]
  by (simp add: run_simps)

text \<open>
  The claim C1 as stated, for every access, fails after \<open>-1\<close> has been requested. After
  1, 2, 3, -1, 4, 5 the frames are 4 2 5 and the residents 5, 4, -1. The access 6 is a
  MISS that evicts \<open>-1\<close> and inserts 6 at the front, but no slot holds \<open>-1\<close>, so the
  scan runs to the end and 6 is not placed into the frame table.
\<close>

theorem access_sentinel_counterexample:
  "\<not> resident (state_after [1, 2, 3, - 1, 4, 5]) 6 \<and>
   ram (state_after [1, 2, 3, - 1, 4, 5]) = [4, 2, 5] \<and>
   fst (access (state_after [1, 2, 3, - 1, 4, 5]) 6) = MISS (- 1) \<and>
   recency (snd (access (state_after [1, 2, 3, - 1, 4, 5]) 6)) = [6, 5, 4] \<and>
   ram (snd (access (state_after [1, 2, 3, - 1, 4, 5]) 6)) = [4, 2, 5] \<and>
   6 \<notin> set (ram (snd (access (state_after [1, 2, 3, - 1, 4, 5]) 6)))"
  by (simp add: run_simps)

text \<open>
  Claim C2. On the inputs 1, 2, 3, 1, 4 the program reports: 1 MISS with frames 1 -1 -1;
  2 MISS with frames 1 2 -1; 3 MISS with frames 1 2 3; 1 HIT with the frames unchanged;
  4 MISS with victim 2 and frames 1 4 3.
\<close>

theorem trace_1_2_3_1_4:
  "fst (main [1, 2, 3, 1, 4]) =
     [(1, MISS (- 1), [1, - 1, - 1]),
      (2, MISS (- 1), [1, 2, - 1]),
      (3, MISS (- 1), [1, 2, 3]),
      (1, HIT, [1, 2, 3]),
      (4, MISS 2, [1, 4, 3])]"
  by (simp add: run_simps)

text \<open>
  Claim C3, amended. After every sequence of accesses the resident count is at most 3.
  After every sequence of accesses that never requests the sentinel \<open>-1\<close>, the number of
  non-empty frame slots equals the resident count, and the non-empty slots hold, each
  once, exactly the identifiers of the recency list, which are the resident identifiers.
  Every prefix of a sequence is a sequence, so this holds between any two accesses.
\<close>

theorem frame_tracker_agree:
  "length (recency (state_after xs)) \<le> 3 \<and>
   (- 1 \<notin> set xs \<longrightarrow>
      length (occupied (state_after xs)) = length (recency (state_after xs)) \<and>
      mset (occupied (state_after xs)) = mset (recency (state_after xs)) \<and>
      distinct (recency (state_after xs)) \<and>
      set (occupied (state_after xs)) = {x. resident (state_after xs) x})"
proof -
  let ?s = "state_after xs"
  have inv: "tracker_inv ?s" by (rule tracker_inv_state_after)
  have d: "distinct (recency ?s)" using inv by (simp add: tracker_inv_def recency_def)
  have r: "{x. resident ?s x} = set (recency ?s)" using resident_recency[OF inv] by auto
  {
    assume a: "- 1 \<notin> set xs"
    have m: "mset (occupied ?s) = mset (recency ?s)" using a by (rule occupied_recency)
    then have "length (occupied ?s) = length (recency ?s)" by (metis size_mset)
    moreover from m have "set (occupied ?s) = set (recency ?s)" by (metis mset_eq_setD)
    ultimately have "length (occupied ?s) = length (recency ?s) \<and>
      mset (occupied ?s) = mset (recency ?s) \<and> distinct (recency ?s) \<and>
      set (occupied ?s) = {x. resident ?s x}"
      using m d r by simp
  }
  then show ?thesis using size_le_capacity[of xs] by blast
qed

theorem frame_tracker_agree_witness:
  "- 1 \<notin> set [1, 2, 3, 1, 4 :: int] \<and>
   occupied (state_after [1, 2, 3, 1, 4]) = [1, 4, 3] \<and>
   recency (state_after [1, 2, 3, 1, 4]) = [4, 1, 3] \<and>
   mset (occupied (state_after [1, 2, 3, 1, 4])) = mset (recency (state_after [1, 2, 3, 1, 4]))"
  using frame_tracker_agree [of "[1, 2, 3, 1, 4]"] by (simp add: run_simps)

text \<open>
  The claim C3 as stated, for every sequence, fails once \<open>-1\<close> is requested: after the
  single access \<open>-1\<close> one identifier is resident and no slot is non-empty.
\<close>

theorem frame_tracker_sentinel_counterexample:
  "recency (state_after [- 1]) = [- 1] \<and> occupied (state_after [- 1]) = [] \<and>
   length (occupied (state_after [- 1])) \<noteq> length (recency (state_after [- 1]))"
  by (simp add: run_simps)

text \<open>
  Claim C4. After every sequence of non-negative identifiers, a MISS on a non-negative
  identifier always leaves the placement scan through a \<^verbatim>\<open>break\<close>, at some slot
  \<open>k < 3\<close>, never by running to the end. When the list holds three nodes the eviction
  runs, on a list that is not empty, and the slot written is one that held the victim.
  Otherwise nothing is evicted (the new node is pushed onto the whole list) and the slot
  written is the first empty slot.
\<close>

theorem placement_never_fails:
  assumes "\<forall>y\<in>set xs. 0 \<le> y" "0 \<le> x" "\<not> resident (state_after xs) x"
  shows "\<exists>v k. fst (access (state_after xs) x) = MISS v \<and>
           place 0 x v (ram (state_after xs)) = (ram (snd (access (state_after xs) x)), Some k) \<and>
           k < 3 \<and>
           (length (check_usage (state_after xs)) = 3 \<longrightarrow>
              check_usage (state_after xs) \<noteq> [] \<and>
              v = snd (last (check_usage (state_after xs))) \<and>
              ram (state_after xs) ! k = v) \<and>
           (length (check_usage (state_after xs)) \<noteq> 3 \<longrightarrow>
              v = - 1 \<and>
              check_usage (snd (access (state_after xs) x)) =
                push_front x (check_usage (state_after xs)) \<and>
              ram (state_after xs) ! k = - 1 \<and>
              (\<forall>i<k. ram (state_after xs) ! i \<noteq> - 1))"
proof (cases "length (check_usage (state_after xs)) = 3")
  case True
  from assms(1) have ns: "- 1 \<notin> set xs" by (rule nonneg_no_sentinel)
  from True have "check_usage (state_after xs) \<noteq> []" by auto
  with miss_placement_full[OF ns assms(3) True] True show ?thesis by blast
next
  case False
  from assms(1) have ns: "- 1 \<notin> set xs" by (rule nonneg_no_sentinel)
  from assms(3) have m: "map_it (state_after xs) x = None" by (simp add: resident_def)
  have "check_usage (snd (access (state_after xs) x)) = push_front x (check_usage (state_after xs))"
    by (simp add: access_miss_low[OF m False] push_front_def)
  with miss_placement_low[OF ns assms(3) False] False show ?thesis by blast
qed

theorem placement_never_fails_witness:
  "(0 :: int) \<le> 1 \<and> (0 :: int) \<le> 2 \<and> (0 :: int) \<le> 3 \<and> (0 :: int) \<le> 4 \<and>
   \<not> resident (state_after [1, 2, 3]) 4 \<and>
   fst (access (state_after [1, 2, 3]) 4) = MISS 1 \<and>
   place 0 4 1 (ram (state_after [1, 2, 3])) = ([4, 2, 3], Some 0)"
  using placement_never_fails [of "[1, 2, 3]" 4] by (simp add: run_simps)

text \<open>
  Claim C5, amended. On every MISS, in any state, the scan goes through the slots in index
  order. If some slot holds \<open>-1\<close> or holds the victim, the first such slot is overwritten
  with the new item and all other slots keep their contents; if no slot does, nothing is
  written and the frame table stays as it was. After a sequence of accesses that never
  requests \<open>-1\<close>, a slot is always written: the first one holding the victim when a
  victim was evicted, and the first empty slot when none was; all other slots keep their
  contents.
\<close>

theorem placement_first_match:
  "(fst (access s x) = MISS v \<longrightarrow>
      (\<exists>k<3. (ram s ! k = - 1 \<or> ram s ! k = v) \<and>
              (\<forall>i<k. ram s ! i \<noteq> - 1 \<and> ram s ! i \<noteq> v) \<and>
              ram (snd (access s x)) = (ram s)[k := x]) \<or>
      ((\<forall>i<3. ram s ! i \<noteq> - 1 \<and> ram s ! i \<noteq> v) \<and> ram (snd (access s x)) = ram s)) \<and>
   (- 1 \<notin> set xs \<and> \<not> resident (state_after xs) y \<longrightarrow>
      (\<exists>k<3. ram (snd (access (state_after xs) y)) = (ram (state_after xs))[k := y] \<and>
              ram (snd (access (state_after xs) y)) ! k = y \<and>
              (\<forall>i<3. i \<noteq> k \<longrightarrow>
                 ram (snd (access (state_after xs) y)) ! i = ram (state_after xs) ! i) \<and>
              (length (check_usage (state_after xs)) = 3 \<longrightarrow>
                 fst (access (state_after xs) y) = MISS (snd (last (check_usage (state_after xs)))) \<and>
                 ram (state_after xs) ! k = snd (last (check_usage (state_after xs))) \<and>
                 (\<forall>i<k. ram (state_after xs) ! i \<noteq> snd (last (check_usage (state_after xs))))) \<and>
              (length (check_usage (state_after xs)) \<noteq> 3 \<longrightarrow>
                 fst (access (state_after xs) y) = MISS (- 1) \<and>
                 ram (state_after xs) ! k = - 1 \<and>
                 (\<forall>i<k. ram (state_after xs) ! i \<noteq> - 1))))"
proof -
  let ?t = "state_after xs"
  have A: "fst (access s x) = MISS v \<longrightarrow>
      (\<exists>k<3. (ram s ! k = - 1 \<or> ram s ! k = v) \<and>
              (\<forall>i<k. ram s ! i \<noteq> - 1 \<and> ram s ! i \<noteq> v) \<and>
              ram (snd (access s x)) = (ram s)[k := x]) \<or>
      ((\<forall>i<3. ram s ! i \<noteq> - 1 \<and> ram s ! i \<noteq> v) \<and> ram (snd (access s x)) = ram s)"
  proof
    assume "fst (access s x) = MISS v"
    then have r: "ram (snd (access s x)) = fst (place 0 x v (ram s))" by (rule access_miss_ram)
    from place_rule[of "ram s" v x] show
      "(\<exists>k<3. (ram s ! k = - 1 \<or> ram s ! k = v) \<and>
              (\<forall>i<k. ram s ! i \<noteq> - 1 \<and> ram s ! i \<noteq> v) \<and>
              ram (snd (access s x)) = (ram s)[k := x]) \<or>
      ((\<forall>i<3. ram s ! i \<noteq> - 1 \<and> ram s ! i \<noteq> v) \<and> ram (snd (access s x)) = ram s)"
      unfolding r by auto
  qed
  have B: "- 1 \<notin> set xs \<and> \<not> resident ?t y \<longrightarrow>
      (\<exists>k<3. ram (snd (access ?t y)) = (ram ?t)[k := y] \<and>
              ram (snd (access ?t y)) ! k = y \<and>
              (\<forall>i<3. i \<noteq> k \<longrightarrow> ram (snd (access ?t y)) ! i = ram ?t ! i) \<and>
              (length (check_usage ?t) = 3 \<longrightarrow>
                 fst (access ?t y) = MISS (snd (last (check_usage ?t))) \<and>
                 ram ?t ! k = snd (last (check_usage ?t)) \<and>
                 (\<forall>i<k. ram ?t ! i \<noteq> snd (last (check_usage ?t)))) \<and>
              (length (check_usage ?t) \<noteq> 3 \<longrightarrow>
                 fst (access ?t y) = MISS (- 1) \<and>
                 ram ?t ! k = - 1 \<and>
                 (\<forall>i<k. ram ?t ! i \<noteq> - 1)))"
  proof
    assume h: "- 1 \<notin> set xs \<and> \<not> resident ?t y"
    have l: "length (ram ?t) = 3" using tracker_inv_state_after[of xs] by (simp add: tracker_inv_def)
    show "\<exists>k<3. ram (snd (access ?t y)) = (ram ?t)[k := y] \<and>
              ram (snd (access ?t y)) ! k = y \<and>
              (\<forall>i<3. i \<noteq> k \<longrightarrow> ram (snd (access ?t y)) ! i = ram ?t ! i) \<and>
              (length (check_usage ?t) = 3 \<longrightarrow>
                 fst (access ?t y) = MISS (snd (last (check_usage ?t))) \<and>
                 ram ?t ! k = snd (last (check_usage ?t)) \<and>
                 (\<forall>i<k. ram ?t ! i \<noteq> snd (last (check_usage ?t)))) \<and>
              (length (check_usage ?t) \<noteq> 3 \<longrightarrow>
                 fst (access ?t y) = MISS (- 1) \<and>
                 ram ?t ! k = - 1 \<and>
                 (\<forall>i<k. ram ?t ! i \<noteq> - 1))"
    proof (cases "length (check_usage ?t) = 3")
      case True
      from miss_placement_full[of xs y] h True obtain k where
        "k < 3" "fst (access ?t y) = MISS (snd (last (check_usage ?t)))"
        "ram (snd (access ?t y)) = (ram ?t)[k := y]"
        "ram ?t ! k = snd (last (check_usage ?t))"
        "\<forall>i<k. ram ?t ! i \<noteq> snd (last (check_usage ?t))"
        by blast
      with True l show ?thesis by (intro exI[of _ k]) simp
    next
      case False
      from h False have
        "length (check_usage ?t) < 3" "fst (access ?t y) = MISS (- 1)"
        "ram (snd (access ?t y)) = (ram ?t)[length (check_usage ?t) := y]"
        "ram ?t ! length (check_usage ?t) = - 1"
        "\<forall>i<length (check_usage ?t). ram ?t ! i \<noteq> - 1"
        using miss_placement_low[of xs y] by blast+
      with False l show ?thesis by (intro exI[of _ "length (check_usage ?t)"]) simp
    qed
  qed
  from A B show ?thesis by (rule conjI)
qed

theorem placement_first_match_witness:
  "fst (access (state_after [1, 2, 3, - 1]) 4) = MISS 2 \<and>
   - 1 \<notin> set [1, 2, 3, 1 :: int] \<and> \<not> resident (state_after [1, 2, 3, 1]) 4 \<and>
   length (check_usage (state_after [1, 2, 3, 1])) = 3 \<and>
   fst (access (state_after [1, 2, 3, 1]) 4) = MISS 2 \<and>
   ram (state_after [1, 2, 3, 1]) = [1, 2, 3] \<and>
   ram (snd (access (state_after [1, 2, 3, 1]) 4)) = [1, 4, 3]"
  using placement_first_match [of "state_after [1, 2, 3, - 1]" 4 2 "[1, 2, 3, 1]" 4]
  by (simp add: run_simps)

text \<open>
  The claim C5 as stated fails once \<open>-1\<close> has been requested. After 1, 2, 3, -1 the
  frames are -1 2 3; the MISS on 4 evicts the victim 2, yet the scan stops at slot 0,
  which holds \<open>-1\<close>: the frames become 4 2 3, and the slot holding the victim is kept.
\<close>

theorem placement_sentinel_counterexample:
  "ram (state_after [1, 2, 3, - 1]) = [- 1, 2, 3] \<and>
   \<not> resident (state_after [1, 2, 3, - 1]) 4 \<and>
   fst (access (state_after [1, 2, 3, - 1]) 4) = MISS 2 \<and>
   ram (snd (access (state_after [1, 2, 3, - 1]) 4)) = [4, 2, 3]"
  by (simp add: run_simps)

text \<open>
  Claim C6. On a non-empty recency list the eviction returns the identifier of the last
  node, removes that node from the list and that identifier from the map, and leaves every
  other map entry alone. An access performs the eviction exactly when it is a MISS and the
  list holds three nodes: then the new node is pushed onto the list without its last
  node; a MISS with another resident count pushes the new node onto the whole list, and
  a HIT only reorders the nodes.
\<close>

theorem evict_back:
  "(ns \<noteq> [] \<longrightarrow>
      (case evict ns m of (victim, ns', m') \<Rightarrow>
         victim = snd (last ns) \<and> ns' @ [last ns] = ns \<and>
         m' victim = None \<and> (\<forall>k. k \<noteq> victim \<longrightarrow> m' k = m k))) \<and>
   (\<not> resident s x \<and> length (check_usage s) = 3 \<longrightarrow>
      (case evict (check_usage s) (map_it s) of (victim, ns', m') \<Rightarrow>
         fst (access s x) = MISS victim \<and>
         check_usage (snd (access s x)) = push_front x ns' \<and>
         map_it (snd (access s x)) = m'(x \<mapsto> fresh_handle ns'))) \<and>
   (\<not> resident s x \<and> length (check_usage s) \<noteq> 3 \<longrightarrow>
      fst (access s x) = MISS (- 1) \<and>
      check_usage (snd (access s x)) = push_front x (check_usage s) \<and>
      map_it (snd (access s x)) = (map_it s)(x \<mapsto> fresh_handle (check_usage s))) \<and>
   (resident s x \<longrightarrow>
      fst (access s x) = HIT \<and>
      mset (check_usage (snd (access s x))) = mset (check_usage s) \<and>
      map_it (snd (access s x)) = map_it s)"
proof -
  have 1: "ns \<noteq> [] \<longrightarrow>
      (case evict ns m of (victim, ns', m') \<Rightarrow>
         victim = snd (last ns) \<and> ns' @ [last ns] = ns \<and>
         m' victim = None \<and> (\<forall>k. k \<noteq> victim \<longrightarrow> m' k = m k))"
    by (simp add: evict_def Let_def)
  have 2: "\<not> resident s x \<and> length (check_usage s) = 3 \<longrightarrow>
      (case evict (check_usage s) (map_it s) of (victim, ns', m') \<Rightarrow>
         fst (access s x) = MISS victim \<and>
         check_usage (snd (access s x)) = push_front x ns' \<and>
         map_it (snd (access s x)) = m'(x \<mapsto> fresh_handle ns'))"
    by (simp add: resident_def access_miss_full evict_def push_front_def Let_def)
  have 3: "\<not> resident s x \<and> length (check_usage s) \<noteq> 3 \<longrightarrow>
      fst (access s x) = MISS (- 1) \<and>
      check_usage (snd (access s x)) = push_front x (check_usage s) \<and>
      map_it (snd (access s x)) = (map_it s)(x \<mapsto> fresh_handle (check_usage s))"
    by (simp add: resident_def access_miss_low push_front_def)
  have 4: "resident s x \<longrightarrow>
      fst (access s x) = HIT \<and>
      mset (check_usage (snd (access s x))) = mset (check_usage s) \<and>
      map_it (snd (access s x)) = map_it s"
    by (auto simp: resident_def access_hit mset_splice_front)
  from 1 2 3 4 show ?thesis by blast
qed

theorem evict_back_witness:
  "[(0, 1), (1, 2), (2, 3 :: int)] \<noteq> [] \<and>
   fst (evict [(2, 3), (1, 2), (0, 1)] [1 \<mapsto> 0, 2 \<mapsto> 1, 3 \<mapsto> 2]) = 1 \<and>
   fst (snd (evict [(2, 3), (1, 2), (0, 1)] [1 \<mapsto> 0, 2 \<mapsto> 1, 3 \<mapsto> 2])) = [(2, 3), (1, 2)] \<and>
   snd (snd (evict [(2, 3), (1, 2), (0, 1)] [1 \<mapsto> 0, 2 \<mapsto> 1, 3 \<mapsto> 2])) 1 = None \<and>
   \<not> resident (state_after [1, 2, 3]) 4 \<and> length (check_usage (state_after [1, 2, 3])) = 3 \<and>
   fst (access (state_after [1, 2, 3]) 4) = MISS 1 \<and>
   \<not> resident (state_after [1, 2]) 4 \<and> length (check_usage (state_after [1, 2])) \<noteq> 3 \<and>
   fst (access (state_after [1, 2]) 4) = MISS (- 1) \<and>
   resident (state_after [1, 2]) 1 \<and>
   fst (access (state_after [1, 2]) 1) = HIT"
  using evict_back [of "[(2, 3), (1, 2), (0, 1)]" "[1 \<mapsto> 0, 2 \<mapsto> 1, 3 \<mapsto> 2]" "state_after [1, 2, 3]" 4]
    evict_back [of "[]" "Map.empty" "state_after [1, 2]" 4]
    evict_back [of "[]" "Map.empty" "state_after [1, 2]" 1]
  by (simp add: run_simps)

text \<open>
  Claim C7. In every state the program reaches, an access to a resident identifier is a
  HIT that moves the identifier to the front of the recency order; the other resident
  identifiers keep their relative order, and the set of resident identifiers, in the list
  and in the map, is unchanged.
\<close>

theorem hit_promotes:
  assumes "resident (state_after xs) x"
  shows "fst (access (state_after xs) x) = HIT \<and>
         recency (snd (access (state_after xs) x)) =
           x # filter (\<lambda>v. v \<noteq> x) (recency (state_after xs)) \<and>
         set (recency (snd (access (state_after xs) x))) = set (recency (state_after xs)) \<and>
         (\<forall>y. resident (snd (access (state_after xs) x)) y = resident (state_after xs) y)"
proof -
  let ?s = "state_after xs"
  have inv: "tracker_inv ?s" by (rule tracker_inv_state_after)
  from assms obtain h where h: "map_it ?s x = Some h" by (auto simp: resident_def)
  have acc: "access ?s x = (HIT, ?s\<lparr>check_usage := splice_front h (check_usage ?s)\<rparr>)"
    using h by (rule access_hit)
  have r: "recency (snd (access ?s x)) = x # filter (\<lambda>v. v \<noteq> x) (recency ?s)"
    using recency_splice_front[OF inv h] by (simp add: acc recency_def)
  have "x \<in> set (recency ?s)" using assms resident_recency[OF inv] by simp
  then have "set (x # filter (\<lambda>v. v \<noteq> x) (recency ?s)) = set (recency ?s)" by auto
  with r have st: "set (recency (snd (access ?s x))) = set (recency ?s)" by simp
  have "\<forall>y. resident (snd (access ?s x)) y = resident ?s y"
    by (simp add: acc resident_def)
  with acc r st show ?thesis by simp
qed

theorem hit_promotes_witness:
  "resident (state_after [1, 2, 3]) 2 \<and>
   recency (state_after [1, 2, 3]) = [3, 2, 1] \<and>
   fst (access (state_after [1, 2, 3]) 2) = HIT \<and>
   recency (snd (access (state_after [1, 2, 3]) 2)) = [2, 3, 1]"
  using hit_promotes [of "[1, 2, 3]" 2] by (simp add: run_simps)

text \<open>
  Claim C8. In every state in which an identifier is resident, an access to it is a HIT
  and leaves the frame table as it is. After any access to an identifier, in any state,
  an immediate second access to it is a HIT that leaves the frame table as it is.
\<close>

theorem hit_keeps_frames:
  "(resident s x \<longrightarrow> fst (access s x) = HIT \<and> ram (snd (access s x)) = ram s) \<and>
   fst (access (snd (access s x)) x) = HIT \<and>
   ram (snd (access (snd (access s x)) x)) = ram (snd (access s x))"
proof -
  have a: "\<And>t. resident t x \<Longrightarrow> fst (access t x) = HIT \<and> ram (snd (access t x)) = ram t"
    by (auto simp: resident_def access_hit)
  from a[OF access_resident_after[of s x]] a show ?thesis by blast
qed

theorem hit_keeps_frames_witness:
  "resident (state_after [1, 2, 3]) 2 \<and>
   fst (access (state_after [1, 2, 3]) 2) = HIT \<and>
   ram (snd (access (state_after [1, 2, 3]) 2)) = [1, 2, 3] \<and>
   fst (access (snd (access (state_after [1, 2, 3]) 2)) 2) = HIT \<and>
   ram (snd (access (snd (access (state_after [1, 2, 3]) 2)) 2)) = [1, 2, 3]"
  using hit_keeps_frames [of "state_after [1, 2, 3]" 2] by (simp add: run_simps)

text \<open>
  Claim C9. After every sequence of non-negative identifiers the occupied slots are a
  prefix of the frame table: the slots below the resident count are not empty and the
  slots from the resident count on hold \<open>-1\<close>. Hence a MISS on a non-negative identifier
  under capacity writes the slot whose index is the resident count before the access.
\<close>

theorem frames_prefix:
  assumes "\<forall>y\<in>set xs. 0 \<le> y"
  shows "length (ram (state_after xs)) = 3 \<and>
         (\<forall>j<3. (j < length (recency (state_after xs)) \<longrightarrow> ram (state_after xs) ! j \<noteq> - 1) \<and>
                (length (recency (state_after xs)) \<le> j \<longrightarrow> ram (state_after xs) ! j = - 1)) \<and>
         (0 \<le> x \<and> \<not> resident (state_after xs) x \<and> length (recency (state_after xs)) < 3 \<longrightarrow>
            fst (access (state_after xs) x) = MISS (- 1) \<and>
            place 0 x (- 1) (ram (state_after xs)) =
              (ram (snd (access (state_after xs) x)), Some (length (recency (state_after xs)))) \<and>
            ram (snd (access (state_after xs) x)) =
              (ram (state_after xs))[length (recency (state_after xs)) := x])"
proof -
  let ?s = "state_after xs"
  from assms have ns: "- 1 \<notin> set xs" by (rule nonneg_no_sentinel)
  have ti: "tracker_inv ?s" by (rule tracker_inv_state_after)
  have fi: "frame_inv ?s" using ns by (rule frame_inv_state_after)
  have len: "length (recency ?s) = length (check_usage ?s)" by (simp add: recency_def)
  have a: "length (ram ?s) = 3" using ti by (simp add: tracker_inv_def)
  have b: "\<forall>j<3. (j < length (recency ?s) \<longrightarrow> ram ?s ! j \<noteq> - 1) \<and>
                (length (recency ?s) \<le> j \<longrightarrow> ram ?s ! j = - 1)"
    using frame_inv_no_sentinel[OF fi] ti unfolding len by (simp add: tracker_inv_def)
  have c: "0 \<le> x \<and> \<not> resident ?s x \<and> length (recency ?s) < 3 \<longrightarrow>
            fst (access ?s x) = MISS (- 1) \<and>
            place 0 x (- 1) (ram ?s) = (ram (snd (access ?s x)), Some (length (recency ?s))) \<and>
            ram (snd (access ?s x)) = (ram ?s)[length (recency ?s) := x]"
    using miss_placement_low(1-3)[OF ns, of x] unfolding len by simp
  from a b c show ?thesis by blast
qed

theorem frames_prefix_witness:
  "(0 :: int) \<le> 5 \<and> (0 :: int) \<le> 7 \<and>
   ram (state_after [5, 7]) = [5, 7, - 1] \<and> length (recency (state_after [5, 7])) = 2 \<and>
   (0 :: int) \<le> 9 \<and> \<not> resident (state_after [5, 7]) 9 \<and>
   place 0 9 (- 1) (ram (state_after [5, 7])) = ([5, 7, 9], Some 2)"
  using frames_prefix [of "[5, 7]" 9] by (simp add: run_simps)

text \<open>
  Claim C10, amended. In a reachable state below capacity in which \<open>-1\<close> is not yet
  resident, an access to \<open>-1\<close> is a MISS that puts \<open>-1\<close> at the front of the recency list and into
  the map; the scan stops at a slot holding \<open>-1\<close> and writes \<open>-1\<close> into it, so the
  frame table, and with it the printed snapshot, is the same as before; the next access
  to \<open>-1\<close> is a HIT.
\<close>

theorem sentinel_access:
  assumes "length (check_usage (state_after xs)) < 3" "\<not> resident (state_after xs) (- 1)"
  shows "fst (access (state_after xs) (- 1)) = MISS (- 1) \<and>
         recency (snd (access (state_after xs) (- 1))) = - 1 # recency (state_after xs) \<and>
         resident (snd (access (state_after xs) (- 1))) (- 1) \<and>
         (\<exists>k<3. place 0 (- 1) (- 1) (ram (state_after xs)) =
                   (ram (snd (access (state_after xs) (- 1))), Some k) \<and>
                 ram (state_after xs) ! k = - 1 \<and>
                 ram (snd (access (state_after xs) (- 1))) ! k = - 1) \<and>
         ram (snd (access (state_after xs) (- 1))) = ram (state_after xs) \<and>
         occupied (snd (access (state_after xs) (- 1))) = occupied (state_after xs) \<and>
         fst (access (snd (access (state_after xs) (- 1))) (- 1)) = HIT"
proof -
  let ?s = "state_after xs"
  have ti: "tracker_inv ?s" by (rule tracker_inv_state_after)
  from assms(1) have n3: "length (check_usage ?s) \<noteq> 3" by simp
  from assms(2) have m: "map_it ?s (- 1) = None" by (simp add: resident_def)
  from place_low_any[OF ti n3, of "- 1"] obtain k where
    k: "k \<le> length (check_usage ?s)" "ram ?s ! k = - 1"
       "place 0 (- 1) (- 1) (ram ?s) = ((ram ?s)[k := - 1], Some k)"
    by blast
  from k(1) assms(1) have k3: "k < 3" by simp
  have upd: "(ram ?s)[k := - 1] = ram ?s" using k(2) by (metis list_update_id)
  have r: "ram (snd (access ?s (- 1))) = ram ?s"
    using k(3) upd by (simp add: access_miss_low[OF m n3])
  have a: "fst (access ?s (- 1)) = MISS (- 1)" by (simp add: access_miss_low[OF m n3])
  have b: "recency (snd (access ?s (- 1))) = - 1 # recency ?s"
    by (simp add: access_miss_low[OF m n3] recency_def)
  have c: "resident (snd (access ?s (- 1))) (- 1)" by (rule access_resident_after)
  then have d: "fst (access (snd (access ?s (- 1))) (- 1)) = HIT"
    by (auto simp: resident_def access_hit)
  have e: "occupied (snd (access ?s (- 1))) = occupied ?s" by (simp add: occupied_def r)
  have f: "\<exists>k<3. place 0 (- 1) (- 1) (ram ?s) = (ram (snd (access ?s (- 1))), Some k) \<and>
                 ram ?s ! k = - 1 \<and> ram (snd (access ?s (- 1))) ! k = - 1"
    using k k3 upd r by auto
  from a b c d e f r show ?thesis by simp
qed

theorem sentinel_access_witness:
  "length (check_usage (state_after [7])) < 3 \<and> \<not> resident (state_after [7]) (- 1) \<and>
   ram (state_after [7]) = [7, - 1, - 1] \<and>
   fst (access (state_after [7]) (- 1)) = MISS (- 1) \<and>
   recency (snd (access (state_after [7]) (- 1))) = [- 1, 7] \<and>
   ram (snd (access (state_after [7]) (- 1))) = [7, - 1, - 1] \<and>
   fst (access (snd (access (state_after [7]) (- 1))) (- 1)) = HIT"
  using sentinel_access [of "[7]"] by (simp add: run_simps)

text \<open>
  The claim C10 as stated, for every access to \<open>-1\<close> below capacity, fails when \<open>-1\<close> is
  already resident. After 7, -1 two identifiers are resident, \<open>-1\<close> among them, and the
  access to \<open>-1\<close> is a HIT, not a MISS.
\<close>

theorem sentinel_resident_counterexample:
  "length (check_usage (state_after [7, - 1])) = 2 \<and>
   resident (state_after [7, - 1]) (- 1) \<and>
   fst (access (state_after [7, - 1]) (- 1)) = HIT"
  by (simp add: run_simps)

end
